theory Spec2Isabelle
  imports Main
begin

section \<open>Publication manager (cms/core/models/managers.py)\<close>

text \<open>
  \<^verbatim>\<open>PublicationManager\<close> is a \<^verbatim>\<open>threading.local\<close> holding one Python list,
  \<^verbatim>\<open>self._stack\<close>. One thread's view of it is a list of booleans whose last element is
  the top of the stack (\<^verbatim>\<open>append\<close> pushes at the end, \<^verbatim>\<open>pop()\<close> and \<^verbatim>\<open>[-1]\<close> work
  at the end). The methods \<^verbatim>\<open>_begin\<close> and \<^verbatim>\<open>_end\<close> are named \<open>pm_begin\<close> and
  \<open>pm_end\<close> here, since an Isabelle name cannot start with an underscore.

  Exceptions are values: \<open>PublicationManagementError\<close> is the class of the module,
  \<open>RuntimeError\<close> is what the interpreter raises when the recursion limit is reached, and
  \<open>OtherError\<close> stands for any exception raised by code enclosed in a publication block.
\<close>

datatype exn =
    PublicationManagementError
  | RuntimeError
  | OtherError

type_synonym stack = "bool list"

text \<open>\<^verbatim>\<open>__init__\<close>: the stack starts empty.\<close>

definition init_stack :: stack where
  "init_stack = []"

text \<open>\<^verbatim>\<open>_begin\<close>: \<^verbatim>\<open>self._stack.append(select_published)\<close>.\<close>

definition pm_begin :: "stack \<Rightarrow> bool \<Rightarrow> stack" where
  "pm_begin st select_published = st @ [select_published]"

text \<open>
  \<^verbatim>\<open>select_published_active\<close>: \<^verbatim>\<open>self._stack[-1]\<close>, and True when that raises
  \<^verbatim>\<open>IndexError\<close>, which it does exactly on the empty list.
\<close>

definition select_published_active :: "stack \<Rightarrow> bool" where
  "select_published_active st = (if st = [] then True else last st)"

text \<open>
  \<^verbatim>\<open>_end\<close>: \<^verbatim>\<open>self._stack.pop()\<close>; the \<^verbatim>\<open>IndexError\<close> of an empty list is turned
  into \<^verbatim>\<open>PublicationManagementError\<close>.
\<close>

definition pm_end :: "stack \<Rightarrow> exn + stack" where
  "pm_end st = (if st = [] then Inl PublicationManagementError else Inr (butlast st))"

text \<open>
  The context manager \<^verbatim>\<open>PublicationManager.select_published\<close>: \<^verbatim>\<open>_begin\<close>, then the
  enclosed block at the \<^verbatim>\<open>yield\<close>, then \<^verbatim>\<open>_end\<close> in the \<^verbatim>\<open>finally\<close> clause. The block
  is a function from the stack to its outcome (\<open>None\<close> when it ends normally, \<open>Some e\<close>
  when it raises \<open>e\<close>) and the stack it leaves. The \<^verbatim>\<open>finally\<close> clause runs in both
  cases; an exception raised by \<^verbatim>\<open>_end\<close> replaces the outcome of the block.
\<close>

definition PublicationManager_select_published ::
  "bool \<Rightarrow> (stack \<Rightarrow> exn option \<times> stack) \<Rightarrow> stack \<Rightarrow> exn option \<times> stack" where
  "PublicationManager_select_published select_published body st =
     (let st1 = pm_begin st select_published in
      case body st1 of (r, st2) \<Rightarrow>
        (case pm_end st2 of
           Inl e \<Rightarrow> (Some e, st2)
         | Inr st3 \<Rightarrow> (r, st3)))"

subsection \<open>Sequences of calls and code that uses publication blocks\<close>

text \<open>
  A sequence of calls of \<^verbatim>\<open>_begin\<close> and \<^verbatim>\<open>_end\<close>, run against the stack; the first
  exception ends the run.
\<close>

datatype call = Begin bool | End

fun run_calls :: "call list \<Rightarrow> stack \<Rightarrow> exn + stack" where
  "run_calls [] st = Inr st"
| "run_calls (Begin v # cs) st = run_calls cs (pm_begin st v)"
| "run_calls (End # cs) st =
     (case pm_end st of Inl e \<Rightarrow> Inl e | Inr st' \<Rightarrow> run_calls cs st')"

text \<open>
  A sequence is correctly paired when every \<open>End\<close> closes an earlier \<open>Begin\<close> that is
  still open and no \<open>Begin\<close> stays open: \<open>paired_from d\<close> checks it with \<open>d\<close> blocks
  open at the start.
\<close>

fun paired_from :: "nat \<Rightarrow> call list \<Rightarrow> bool" where
  "paired_from d [] = (d = 0)"
| "paired_from d (Begin v # cs) = paired_from (Suc d) cs"
| "paired_from d (End # cs) = (case d of 0 \<Rightarrow> False | Suc d' \<Rightarrow> paired_from d' cs)"

definition paired :: "call list \<Rightarrow> bool" where
  "paired cs = paired_from 0 cs"

definition is_Begin :: "call \<Rightarrow> bool" where
  "is_Begin c = (case c of Begin v \<Rightarrow> True | End \<Rightarrow> False)"

definition pushes :: "call list \<Rightarrow> nat" where
  "pushes cs = length (filter is_Begin cs)"

definition pops :: "call list \<Rightarrow> nat" where
  "pops cs = length (filter (\<lambda>c. c = End) cs)"

text \<open>
  Code that reaches the manager through \<^verbatim>\<open>with publication_manager.select_published(v):\<close>
  only: a statement that does nothing to the stack (\<open>Pass\<close>), one that raises (\<open>Raise\<close>),
  two blocks in sequence, \<^verbatim>\<open>try: a except: h\<close>, and a publication block around a body.
  \<open>exec\<close> gives the outcome and the stack left behind; \<open>trace\<close> lists the calls of
  \<^verbatim>\<open>_begin\<close> and \<^verbatim>\<open>_end\<close> made on the way, in order.
\<close>

datatype block = Pass | Raise | Seq block block | Try block block | With bool block

fun exec :: "block \<Rightarrow> stack \<Rightarrow> exn option \<times> stack" where
  "exec Pass st = (None, st)"
| "exec Raise st = (Some OtherError, st)"
| "exec (Seq a b) st =
     (case exec a st of
        (Some e, st') \<Rightarrow> (Some e, st')
      | (None, st') \<Rightarrow> exec b st')"
| "exec (Try a h) st =
     (case exec a st of
        (None, st') \<Rightarrow> (None, st')
      | (Some e, st') \<Rightarrow> exec h st')"
| "exec (With v b) st = PublicationManager_select_published v (exec b) st"

fun trace :: "block \<Rightarrow> stack \<Rightarrow> call list" where
  "trace Pass st = []"
| "trace Raise st = []"
| "trace (Seq a b) st =
     (case exec a st of
        (Some e, st') \<Rightarrow> trace a st
      | (None, st') \<Rightarrow> trace a st @ trace b st')"
| "trace (Try a h) st =
     (case exec a st of
        (None, st') \<Rightarrow> trace a st
      | (Some e, st') \<Rightarrow> trace a st @ trace h st')"
| "trace (With v b) st = [Begin v] @ trace b (pm_begin st v) @ [End]"

section \<open>Pages (cms/models/base.py, cms/apps/pages/models/__init__.py)\<close>

text \<open>
  A \<^verbatim>\<open>Page\<close> object with the fields the hierarchy and the publication rules read: the
  primary key, the \<^verbatim>\<open>parent\<close> attribute (another page object, or None for a root),
  \<^verbatim>\<open>is_online\<close>, \<^verbatim>\<open>publication_date\<close> and \<^verbatim>\<open>expiry_date\<close> (both nullable). A
  \<^verbatim>\<open>datetime\<close> is a point on a linear time line, an integer here. The parent is held as
  an object, as the attribute gives it, so the chain of parents of an object is finite;
  the admin form offers no descendant of a page as its parent.

  Django compares model instances by primary key (\<^verbatim>\<open>Model.__eq__\<close>): \<open>page_eq\<close>.
\<close>

type_synonym datetime = int

datatype page = Page
  (page_id: nat)
  (parent: "page option")
  (is_online: bool)
  (publication_date: "datetime option")
  (expiry_date: "datetime option")

definition page_eq :: "page \<Rightarrow> page \<Rightarrow> bool" where
  "page_eq a b = (page_id a = page_id b)"

text \<open>
  A queryset is the list of objects it yields. \<open>rows\<close> below is what the base manager
  yields: every page of the site, in the order of \<^verbatim>\<open>Meta.ordering\<close>. \<^verbatim>\<open>filter\<close> keeps
  that order.
\<close>

type_synonym queryset = "page list"

text \<open>\<^verbatim>\<open>PublishedBase.select_published\<close>: \<^verbatim>\<open>queryset.filter(is_online=True)\<close>.\<close>

definition PublishedBase_select_published :: "queryset \<Rightarrow> queryset" where
  "PublishedBase_select_published queryset = filter (\<lambda>p. is_online p = True) queryset"

text \<open>
  \<^verbatim>\<open>Page.select_published\<close>: the filter of the base class, then the two date filters
  \<^verbatim>\<open>Q(publication_date=None) | Q(publication_date__lte=now)\<close> and
  \<^verbatim>\<open>Q(expiry_date=None) | Q(expiry_date__gt=now)\<close>. A comparison with a null date
  selects nothing. \<open>now\<close> is the value of \<^verbatim>\<open>datetime.datetime.now()\<close>.
\<close>

definition Page_select_published :: "datetime \<Rightarrow> queryset \<Rightarrow> queryset" where
  "Page_select_published now queryset =
     (let queryset1 = PublishedBase_select_published queryset;
          queryset2 = filter (\<lambda>p. publication_date p = None
                         \<or> (case publication_date p of None \<Rightarrow> False | Some d \<Rightarrow> d \<le> now))
                       queryset1;
          queryset3 = filter (\<lambda>p. expiry_date p = None
                         \<or> (case expiry_date p of None \<Rightarrow> False | Some d \<Rightarrow> d > now))
                       queryset2
      in queryset3)"

text \<open>
  \<^verbatim>\<open>PublishedModelManager.get_query_set\<close>: the base queryset, filtered by
  \<^verbatim>\<open>self.model.select_published\<close> when \<^verbatim>\<open>publication_manager.select_published_active()\<close>.
\<close>

definition get_query_set :: "stack \<Rightarrow> datetime \<Rightarrow> queryset \<Rightarrow> queryset" where
  "get_query_set st now rows =
     (let queryset = rows in
      if select_published_active st then Page_select_published now queryset else queryset)"

text \<open>
  \<^verbatim>\<open>Page.get_children\<close>: \<^verbatim>\<open>Page.objects.filter(parent=self)\<close>, the pages of the manager's
  queryset whose parent key is the key of \<^verbatim>\<open>self\<close>. The class of \<^verbatim>\<open>Page.objects\<close>
  (\<^verbatim>\<open>PageManager\<close>) and the decorator \<^verbatim>\<open>cached_getter\<close> are not among the sources: the
  manager's queryset is the one of \<open>get_query_set\<close>, and the function below is the query
  that the decorated method builds each time it runs.
\<close>

definition get_children :: "stack \<Rightarrow> datetime \<Rightarrow> queryset \<Rightarrow> page \<Rightarrow> page list" where
  "get_children st now rows self =
     filter (\<lambda>q. case parent q of None \<Rightarrow> False | Some par \<Rightarrow> page_id par = page_id self)
       (get_query_set st now rows)"

text \<open>
  \<^verbatim>\<open>all_parents\<close> (\<^verbatim>\<open>EntityBase.all_parents\<close>, \<^verbatim>\<open>Page.get_all_parents\<close>):
  \<^verbatim>\<open>[self.parent] + self.parent.all_parents\<close> when there is a parent, \<^verbatim>\<open>[]\<close> otherwise.
\<close>

fun all_parents :: "page \<Rightarrow> page list" where
  "all_parents (Page i (Some par) online pub ex) = [par] @ all_parents par"
| "all_parents (Page i None online pub ex) = []"

text \<open>\<^verbatim>\<open>breadcrumbs\<close>: the list of parents reversed in place, then \<^verbatim>\<open>self\<close> appended.\<close>

definition breadcrumbs :: "page \<Rightarrow> page list" where
  "breadcrumbs self = rev (all_parents self) @ [self]"

text \<open>
  \<^verbatim>\<open>all_children\<close> (\<^verbatim>\<open>EntityBase.all_children\<close>, \<^verbatim>\<open>Page.get_all_children\<close>): the loop
  appends each child and then extends the list by the child's own \<^verbatim>\<open>all_children\<close>.
  The recursion follows the rows of the database, which may hold a cycle of parents, so
  the first argument bounds the depth of the recursion, as the interpreter's recursion
  limit does: at depth 0 the call raises \<open>RuntimeError\<close>, and an exception of a recursive
  call ends the loop.
\<close>

fun all_children_loop ::
  "(page \<Rightarrow> exn + page list) \<Rightarrow> page list \<Rightarrow> page list \<Rightarrow> exn + page list" where
  "all_children_loop all_children_of [] children = Inr children"
| "all_children_loop all_children_of (child # rest) children =
     (case all_children_of child of
        Inl e \<Rightarrow> Inl e
      | Inr sub \<Rightarrow> all_children_loop all_children_of rest ((children @ [child]) @ sub))"

fun all_children :: "nat \<Rightarrow> stack \<Rightarrow> datetime \<Rightarrow> queryset \<Rightarrow> page \<Rightarrow> exn + page list" where
  "all_children 0 st now rows self = Inl RuntimeError"
| "all_children (Suc depth) st now rows self =
     all_children_loop (\<lambda>child. all_children depth st now rows child)
       (get_children st now rows self) []"

text \<open>
  The descendants of a page, in the words of the specification: its children, and the
  descendants of its children. This relation is what \<open>all_children\<close> is compared with.
\<close>

inductive descendant :: "stack \<Rightarrow> datetime \<Rightarrow> queryset \<Rightarrow> page \<Rightarrow> page \<Rightarrow> bool"
  for st :: stack and now :: datetime and rows :: queryset where
  child: "c \<in> set (get_children st now rows p) \<Longrightarrow> descendant st now rows p c"
| below: "c \<in> set (get_children st now rows p) \<Longrightarrow> descendant st now rows c x
           \<Longrightarrow> descendant st now rows p x"

text \<open>\<^verbatim>\<open>siblings\<close>: \<^verbatim>\<open>self.parent.children\<close> when there is a parent, \<^verbatim>\<open>()\<close> otherwise.\<close>

definition siblings :: "stack \<Rightarrow> datetime \<Rightarrow> queryset \<Rightarrow> page \<Rightarrow> page list" where
  "siblings st now rows self =
     (case parent self of
        Some par \<Rightarrow> get_children st now rows par
      | None \<Rightarrow> [])"

text \<open>
  The loop shared by \<^verbatim>\<open>next\<close> and \<^verbatim>\<open>prev\<close>, over what is left of the iterator: take a
  sibling; when it equals \<^verbatim>\<open>self\<close>, return the element the iterator gives next. Each
  \<^verbatim>\<open>StopIteration\<close>, of the first or of the second \<^verbatim>\<open>next()\<close>, leaves the loop, and the
  property returns None. The properties are named \<open>next_sibling\<close> and \<open>prev_sibling\<close>
  (\<open>next\<close> is a keyword of Isabelle); \<^verbatim>\<open>prev\<close> iterates over \<^verbatim>\<open>reversed(self.siblings)\<close>.
\<close>

fun sibling_scan :: "page \<Rightarrow> page list \<Rightarrow> page option" where
  "sibling_scan self [] = None"
| "sibling_scan self (sibling # sibling_iter) =
     (if page_eq sibling self
      then (case sibling_iter of [] \<Rightarrow> None | nxt # _ \<Rightarrow> Some nxt)
      else sibling_scan self sibling_iter)"

definition next_sibling :: "stack \<Rightarrow> datetime \<Rightarrow> queryset \<Rightarrow> page \<Rightarrow> page option" where
  "next_sibling st now rows self = sibling_scan self (siblings st now rows self)"

definition prev_sibling :: "stack \<Rightarrow> datetime \<Rightarrow> queryset \<Rightarrow> page \<Rightarrow> page option" where
  "prev_sibling st now rows self = sibling_scan self (rev (siblings st now rows self))"

subsection \<open>The hierarchy cache, and saving and deleting a page\<close>

text \<open>
  Modelled from the spec: the object \<^verbatim>\<open>cache\<close> that \<^verbatim>\<open>Page.save\<close> and \<^verbatim>\<open>Page.delete\<close>
  call is imported from \<^verbatim>\<open>cms.apps.pages.models.managers\<close>, which is not among the
  sources. The spec gives its contract: a mapping from page identity to page object;
  \<^verbatim>\<open>add(page)\<close> inserts or overwrites the entry of the page's identity, \<^verbatim>\<open>remove(page)\<close>
  deletes the entry if present and does nothing otherwise, \<^verbatim>\<open>get(identity)\<close> returns
  the cached page or None. The identity of a page is the primary key that the object
  holds when the call is made. \<open>cache_remove\<close> takes that key: \<open>Some i\<close>, or \<open>None\<close> for
  an object that holds no primary key, under which nothing is cached.
\<close>

type_synonym cache = "nat \<rightharpoonup> page"

definition cache_add :: "page \<Rightarrow> cache \<Rightarrow> cache" where
  "cache_add p c = c(page_id p \<mapsto> p)"

definition cache_remove :: "nat option \<Rightarrow> cache \<Rightarrow> cache" where
  "cache_remove identity c =
     (case identity of
        None \<Rightarrow> c
      | Some i \<Rightarrow> (if i \<in> dom c then c(i := None) else c))"

definition cache_get :: "nat \<Rightarrow> cache \<Rightarrow> page option" where
  "cache_get i c = c i"

text \<open>
  \<^verbatim>\<open>Page.save\<close> and \<^verbatim>\<open>Page.delete\<close>: the method of the framework's \<^verbatim>\<open>Model\<close> first, then
  the call of the cache, on the same object \<^verbatim>\<open>self\<close>. The framework's methods change
  that object, so they are parameters that return what the cache then sees:
  \<open>model_save\<close> returns the object as saved (a new object gets its primary key there)
  and the new database; \<open>model_delete\<close> returns the primary key that \<^verbatim>\<open>self\<close> holds after
  the deletion and the new database. Django's \<^verbatim>\<open>Model.delete\<close> sets the primary key of
  the deleted instance to None. Either method may raise, and then the cache is not
  reached. The state is the database and the cache.
\<close>

definition Page_save ::
  "(page \<Rightarrow> 'db \<Rightarrow> exn + page \<times> 'db) \<Rightarrow> page \<Rightarrow> 'db \<times> cache
     \<Rightarrow> exn + page \<times> 'db \<times> cache" where
  "Page_save model_save self s =
     (case model_save self (fst s) of
        Inl e \<Rightarrow> Inl e
      | Inr (self', db') \<Rightarrow> Inr (self', db', cache_add self' (snd s)))"

definition Page_delete ::
  "(page \<Rightarrow> 'db \<Rightarrow> exn + nat option \<times> 'db) \<Rightarrow> page \<Rightarrow> 'db \<times> cache
     \<Rightarrow> exn + 'db \<times> cache" where
  "Page_delete model_delete self s =
     (case model_delete self (fst s) of
        Inl e \<Rightarrow> Inl e
      | Inr (self_id', db') \<Rightarrow> Inr (db', cache_remove self_id' (snd s)))"

text \<open>Later calls of the cache, for what happens to an entry after it was added.\<close>

datatype cache_op = Add page | Remove page

fun apply_op :: "cache_op \<Rightarrow> cache \<Rightarrow> cache" where
  "apply_op (Add p) c = cache_add p c"
| "apply_op (Remove p) c = cache_remove (Some (page_id p)) c"

fun op_page :: "cache_op \<Rightarrow> page" where
  "op_page (Add p) = p"
| "op_page (Remove p) = p"

subsection \<open>A small site\<close>

text \<open>
  A root with the children \<open>A\<close> (which has the child \<open>A1\<close>), \<open>B\<close> and the draft \<open>D\<close>
  (not online), and a second root; the rows in their default order. The theorems below
  are evaluated on it.
\<close>

definition site_root :: page where
  "site_root = Page 1 None True None None"

definition site_A :: page where
  "site_A = Page 2 (Some site_root) True None None"

definition site_A1 :: page where
  "site_A1 = Page 3 (Some site_A) True None None"

definition site_B :: page where
  "site_B = Page 4 (Some site_root) True None None"

definition site_D :: page where
  "site_D = Page 5 (Some site_root) False None None"

definition site_root2 :: page where
  "site_root2 = Page 6 None True None None"

definition site_rows :: queryset where
  "site_rows = [site_root, site_A, site_A1, site_B, site_D, site_root2]"

text \<open>
  A rank for the pages of the small site, smaller for a child than for its parent: 2 for
  the root, 1 for \<open>A\<close> and 0 for the others.
\<close>

definition site_rank :: "page \<Rightarrow> nat" where
  "site_rank p = (if page_id p = 1 then 2 else if page_id p = 2 then 1 else 0)"

text \<open>Pages with a publication window, read at the time 10.\<close>

definition dated_rows :: queryset where
  "dated_rows =
     [Page 1 None True None None,
      Page 2 None False None None,
      Page 3 None True (Some 10) (Some 11),
      Page 4 None True (Some 11) None,
      Page 5 None True None (Some 10)]"

text \<open>
  A database that is a list of rows: saving replaces the row with the same key or adds
  one; deleting removes the rows with the key and, as Django does, leaves the deleted
  object without primary key.
\<close>

definition list_save :: "page \<Rightarrow> page list \<Rightarrow> exn + page \<times> page list" where
  "list_save p db = Inr (p, p # filter (\<lambda>q. \<not> page_eq q p) db)"

definition list_delete :: "page \<Rightarrow> page list \<Rightarrow> exn + nat option \<times> page list" where
  "list_delete p db = Inr (None, filter (\<lambda>q. \<not> page_eq q p) db)"

section \<open>Properties of the publication manager\<close>

text \<open>
  Claim C2. \<^verbatim>\<open>select_published_active\<close> returns the value pushed last when the stack is
  not empty and True when the stack is empty. It only reads the stack: the model is a
  function of the stack that returns no new one.
\<close>

theorem select_published_active_top:
  "select_published_active (pm_begin st v) = v
   \<and> select_published_active (st @ [v]) = v
   \<and> select_published_active init_stack = True
   \<and> select_published_active [] = True"
  by (simp add: select_published_active_def pm_begin_def init_stack_def)

theorem select_published_active_top_witness:
  "select_published_active (pm_begin [True] False) = False
   \<and> select_published_active [True, False] = False
   \<and> select_published_active [] = True"
  using select_published_active_top [of "[True]" False]
  by simp

text \<open>
  Claim C3. \<^verbatim>\<open>_end\<close> on an empty stack raises \<^verbatim>\<open>PublicationManagementError\<close>; on a
  stack that is not empty it returns normally, having removed the top element.
\<close>

theorem pm_end_imbalanced:
  "pm_end [] = Inl PublicationManagementError
   \<and> pm_end init_stack = Inl PublicationManagementError
   \<and> (st \<noteq> [] \<longrightarrow> pm_end st = Inr (butlast st))
   \<and> pm_end (pm_begin st v) = Inr st"
  by (simp add: pm_end_def pm_begin_def init_stack_def)

theorem pm_end_imbalanced_witness:
  "pm_end [] = Inl PublicationManagementError
   \<and> [True, False] \<noteq> [] \<and> pm_end [True, False] = Inr [True]
   \<and> pm_end (pm_begin [True, False] False) = Inr [True, False]"
  using pm_end_imbalanced [of "[True, False]" False]
  by simp

subsection \<open>Balance of publication blocks\<close>

lemma pm_end_begin: "pm_end (pm_begin st v) = Inr st"
  by (simp add: pm_end_def pm_begin_def)

lemma select_published_body_restores:
  assumes "body (pm_begin st v) = (r, pm_begin st v)"
  shows "PublicationManager_select_published v body st = (r, st)"
  using assms by (simp add: PublicationManager_select_published_def pm_end_begin)

text \<open>
  Every block leaves the stack as it found it and never fails with the error of an
  unmatched \<^verbatim>\<open>_end\<close>.
\<close>

lemma exec_shape:
  "\<exists>r. exec b st = (r, st) \<and> r \<noteq> Some PublicationManagementError"
proof (induction b arbitrary: st)
  case Pass
  show ?case by simp
next
  case Raise
  show ?case by simp
next
  case (Seq a b)
  from Seq.IH(1)[of st] obtain r where
    a: "exec a st = (r, st)" "r \<noteq> Some PublicationManagementError"
    by blast
  from Seq.IH(2)[of st] obtain r' where
    b: "exec b st = (r', st)" "r' \<noteq> Some PublicationManagementError"
    by blast
  show ?case using a b by (cases r) simp_all
next
  case (Try a h)
  from Try.IH(1)[of st] obtain r where
    a: "exec a st = (r, st)" "r \<noteq> Some PublicationManagementError"
    by blast
  from Try.IH(2)[of st] obtain r' where
    h: "exec h st = (r', st)" "r' \<noteq> Some PublicationManagementError"
    by blast
  show ?case using a h by (cases r) simp_all
next
  case (With v b)
  from With.IH[of "pm_begin st v"] obtain r where
    b: "exec b (pm_begin st v) = (r, pm_begin st v)" "r \<noteq> Some PublicationManagementError"
    by blast
  show ?case using b by (simp add: select_published_body_restores)
qed

lemma exec_stack: "snd (exec b st) = st"
  using exec_shape[of b st] by auto

lemma exec_outcome: "fst (exec b st) \<noteq> Some PublicationManagementError"
  using exec_shape[of b st] by auto

lemma paired_from_trace: "paired_from d (trace b st @ cs) = paired_from d cs"
proof (induction b arbitrary: st d cs)
  case (Seq a b)
  obtain r where a: "exec a st = (r, st)" using exec_shape[of a st] by blast
  show ?case using a Seq.IH by (cases r) simp_all
next
  case (Try a h)
  obtain r where a: "exec a st = (r, st)" using exec_shape[of a st] by blast
  show ?case using a Try.IH by (cases r) simp_all
next
  case (With v b)
  from With.IH[of "Suc d" "pm_begin st v" "End # cs"] show ?case by simp
qed simp_all

lemma paired_trace: "paired (trace b st)"
  using paired_from_trace[of 0 b st "[]"] by (simp add: paired_def)

lemma paired_from_count:
  "paired_from d cs \<Longrightarrow> pops cs = d + pushes cs"
proof (induction d cs rule: paired_from.induct)
  case (1 d)
  then show ?case by (simp add: pops_def pushes_def)
next
  case (2 d v cs)
  then show ?case by (simp add: pops_def pushes_def is_Begin_def)
next
  case (3 d cs)
  then show ?case by (cases d) (simp_all add: pops_def pushes_def is_Begin_def)
qed

lemma paired_count: "paired cs \<Longrightarrow> pushes cs = pops cs"
  using paired_from_count[of 0 cs] by (simp add: paired_def)

text \<open>
  A paired sequence that starts with \<open>length ds\<close> blocks open removes exactly the
  entries \<open>ds\<close> of these blocks.
\<close>

lemma run_calls_paired_from:
  "paired_from (length ds) cs \<Longrightarrow> run_calls cs (st @ ds) = Inr st"
proof (induction cs arbitrary: ds)
  case Nil
  then show ?case by simp
next
  case (Cons c cs)
  show ?case
  proof (cases c)
    case (Begin v)
    with Cons.prems have "paired_from (length (ds @ [v])) cs" by simp
    from Cons.IH[OF this] Begin show ?thesis by (simp add: pm_begin_def)
  next
    case End
    with Cons.prems obtain d' where d: "length ds = Suc d'" and p: "paired_from d' cs"
      by (auto split: nat.splits)
    then have ne: "ds \<noteq> []" by auto
    then have "length (butlast ds) = d'" using d by simp
    with p Cons.IH[of "butlast ds"] have "run_calls cs (st @ butlast ds) = Inr st" by simp
    with End ne show ?thesis by (simp add: pm_end_def butlast_append)
  qed
qed

lemma run_calls_paired: "paired cs \<Longrightarrow> run_calls cs st = Inr st"
  using run_calls_paired_from[of "[]" cs st] by (simp add: paired_def)

text \<open>
  Claim C1. Code that enters and leaves publication blocks through the context manager,
  blocks that end by an exception included, leaves the stack as it was before the
  outermost block, so \<^verbatim>\<open>select_published_active\<close> returns what it returned before; the
  calls it makes are correctly paired, with as many \<^verbatim>\<open>_end\<close> as \<^verbatim>\<open>_begin\<close>, and no
  \<^verbatim>\<open>_end\<close> fails. Every correctly paired sequence of calls runs without an error and
  restores the stack it started from.
\<close>

theorem publication_scopes_restore_stack:
  "snd (exec b st) = st
   \<and> select_published_active (snd (exec b st)) = select_published_active st
   \<and> fst (exec b st) \<noteq> Some PublicationManagementError
   \<and> paired (trace b st)
   \<and> pushes (trace b st) = pops (trace b st)
   \<and> run_calls (trace b st) st = Inr st
   \<and> (paired cs \<longrightarrow> run_calls cs st = Inr st \<and> pushes cs = pops cs)"
  using exec_stack[of b st] exec_outcome[of b st] paired_trace[of b st]
    paired_count[of "trace b st"] run_calls_paired[of "trace b st" st]
    paired_count[of cs] run_calls_paired[of cs st]
  by simp

theorem publication_scopes_restore_stack_witness:
  "exec (Try (With False (Seq (With True Raise) Pass)) (With True Pass)) [False] = (None, [False])
   \<and> exec (With False (Seq (With True Raise) Pass)) [False] = (Some OtherError, [False])
   \<and> trace (Try (With False (Seq (With True Raise) Pass)) (With True Pass)) [False]
       = [Begin False, Begin True, End, End, Begin True, End]
   \<and> paired [Begin True, Begin False, End, Begin False, End, End]
   \<and> run_calls [Begin True, Begin False, End, Begin False, End, End] [False] = Inr [False]
   \<and> pushes [Begin True, Begin False, End, Begin False, End, End] = 3
   \<and> pops [Begin True, Begin False, End, Begin False, End, End] = 3
   \<and> select_published_active [False] = False"
  using publication_scopes_restore_stack
    [of "Try (With False (Seq (With True Raise) Pass)) (With True Pass)" "[False]"
        "[Begin True, Begin False, End, Begin False, End, End]"]
  by (simp add: paired_def pushes_def pops_def is_Begin_def select_published_active_def
        PublicationManager_select_published_def pm_begin_def pm_end_def)

section \<open>Properties of the page hierarchy\<close>

subsection \<open>Parents\<close>

lemma all_parents_unfold:
  "all_parents self = (case parent self of None \<Rightarrow> [] | Some par \<Rightarrow> par # all_parents par)"
  by (cases self; cases "parent self") simp_all

lemma all_parents_smaller: "x \<in> set (all_parents p) \<Longrightarrow> size x < size p"
proof (induction p arbitrary: x rule: all_parents.induct)
  case (1 i par online pub ex)
  then show ?case by fastforce
next
  case (2 i online pub ex)
  then show ?case by simp
qed

lemma all_parents_excludes_self: "self \<notin> set (all_parents self)"
  using all_parents_smaller[of self self] by auto

lemma all_parents_last_root:
  "all_parents p \<noteq> [] \<Longrightarrow> parent (last (all_parents p)) = None"
proof (induction p rule: all_parents.induct)
  case (1 i par online pub ex)
  then show ?case by (cases par; cases "parent par") auto
next
  case (2 i online pub ex)
  then show ?case by simp
qed

text \<open>
  Claim C4, as the code has it. \<^verbatim>\<open>all_parents\<close> returns the ancestors of a page without
  the page itself, the nearest parent first and the root last: the empty list for a root,
  \<open>[mid, root]\<close> for a page two levels deep. The order from the root down is the one of
  \<^verbatim>\<open>breadcrumbs\<close>, which reverses the list and appends the page.
\<close>

theorem all_parents_nearest_first:
  "(parent self = None \<longrightarrow> all_parents self = [])
   \<and> (parent self = Some mid \<and> parent mid = Some root \<and> parent root = None
        \<longrightarrow> all_parents self = [mid, root] \<and> breadcrumbs self = [root, mid, self])
   \<and> (parent self = Some par \<longrightarrow> all_parents self = par # all_parents par)
   \<and> (all_parents self \<noteq> [] \<longrightarrow> parent (last (all_parents self)) = None)
   \<and> self \<notin> set (all_parents self)"
  using all_parents_last_root[of self] all_parents_excludes_self[of self]
  by (simp add: all_parents_unfold[of self] all_parents_unfold[of mid]
        all_parents_unfold[of root] breadcrumbs_def)

theorem all_parents_nearest_first_witness:
  "parent site_root = None \<and> all_parents site_root = []
   \<and> parent site_A1 = Some site_A \<and> parent site_A = Some site_root
   \<and> all_parents site_A1 = [site_A, site_root]
   \<and> breadcrumbs site_A1 = [site_root, site_A, site_A1]"
  using all_parents_nearest_first [of site_root site_A site_root site_A]
    all_parents_nearest_first [of site_A1 site_A site_root site_A]
  by (simp add: site_root_def site_A_def site_A1_def)

text \<open>
  Claim C4 as the specification words it, the root first, fails on the page \<open>A1\<close> of the
  small site, which lies two levels below the root.
\<close>

theorem all_parents_root_first_counterexample:
  "parent site_A1 = Some site_A \<and> parent site_A = Some site_root \<and> parent site_root = None
   \<and> all_parents site_A1 \<noteq> [site_root, site_A]"
  by (simp add: site_root_def site_A_def site_A1_def)

subsection \<open>Children\<close>

lemma all_children_loop_Inr:
  "all_children_loop f cs acc = Inr r \<longleftrightarrow>
     (\<exists>subs. list_all2 (\<lambda>c s. f c = Inr s) cs subs
        \<and> r = acc @ concat (map2 (#) cs subs))"
proof (induction cs arbitrary: acc)
  case Nil
  show ?case by auto
next
  case (Cons c cs)
  show ?case
  proof (cases "f c")
    case (Inl e)
    then show ?thesis by (auto simp: list_all2_Cons1)
  next
    case (Inr s)
    then show ?thesis
      by (auto simp: Cons.IH list_all2_Cons1)
  qed
qed

lemma all_children_Suc_Inr:
  "all_children (Suc d) st now rows self = Inr xs \<longleftrightarrow>
     (\<exists>subs. list_all2 (\<lambda>c s. all_children d st now rows c = Inr s)
               (get_children st now rows self) subs
        \<and> xs = concat (map2 (#) (get_children st now rows self) subs))"
  by (simp add: all_children_loop_Inr)

text \<open>A result does not change when more depth is allowed.\<close>

lemma all_children_mono:
  "all_children d st now rows self = Inr xs \<Longrightarrow> all_children (Suc d) st now rows self = Inr xs"
proof (induction d arbitrary: self xs)
  case 0
  then show ?case by simp
next
  case (Suc d)
  from Suc.prems obtain subs where
    s: "list_all2 (\<lambda>c s. all_children d st now rows c = Inr s) (get_children st now rows self) subs"
    and x: "xs = concat (map2 (#) (get_children st now rows self) subs)"
    unfolding all_children_Suc_Inr by blast
  from s have "list_all2 (\<lambda>c s. all_children (Suc d) st now rows c = Inr s)
                 (get_children st now rows self) subs"
    by (rule list_all2_mono) (rule Suc.IH)
  with x show ?case unfolding all_children_Suc_Inr[of "Suc d"] by blast
qed

lemma all_children_mono_le:
  assumes "d \<le> d'" and "all_children d st now rows self = Inr xs"
  shows "all_children d' st now rows self = Inr xs"
  using assms
  by (induction rule: dec_induct) (auto intro: all_children_mono simp del: all_children.simps)

lemma get_children_page_eq:
  "page_eq a b \<Longrightarrow> get_children st now rows a = get_children st now rows b"
  by (auto simp: get_children_def page_eq_def intro!: filter_cong split: option.splits)

lemma all_children_page_eq:
  "page_eq a b \<Longrightarrow> all_children d st now rows a = all_children d st now rows b"
  by (cases d) (simp_all add: get_children_page_eq[of a b])

text \<open>Every page of a result had its own descendants computed, at a smaller depth.\<close>

lemma all_children_member:
  "all_children d st now rows self = Inr xs \<Longrightarrow> x \<in> set xs \<Longrightarrow>
   \<exists>d' ys. d' < d \<and> all_children d' st now rows x = Inr ys"
proof (induction d arbitrary: self xs)
  case 0
  then show ?case by simp
next
  case (Suc d)
  from Suc.prems(1) obtain subs where
    s: "list_all2 (\<lambda>c s. all_children d st now rows c = Inr s) (get_children st now rows self) subs"
    and xs: "xs = concat (map2 (#) (get_children st now rows self) subs)"
    unfolding all_children_Suc_Inr by blast
  from Suc.prems(2) xs obtain c sub where
    cs: "(c, sub) \<in> set (zip (get_children st now rows self) subs)" and x: "x \<in> set (c # sub)"
    by auto
  from s cs have c: "all_children d st now rows c = Inr sub"
    by (auto simp: list_all2_iff)
  show ?case
  proof (cases "x = c")
    case True
    with c show ?thesis by blast
  next
    case False
    with x have "x \<in> set sub" by simp
    from Suc.IH[OF c this] show ?thesis by (meson less_Suc_eq)
  qed
qed

text \<open>
  A page is not among its own descendants: were it there, the same list would have been
  computed for it at a smaller depth, and so on down to depth 0, where nothing is computed.
\<close>

lemma all_children_excludes_self:
  "all_children d st now rows self = Inr xs \<Longrightarrow> x \<in> set xs \<Longrightarrow> \<not> page_eq x self"
proof (induction d arbitrary: xs x rule: less_induct)
  case (less d)
  show ?case
  proof
    assume e: "page_eq x self"
    from all_children_member[OF less.prems] obtain d' ys where
      d': "d' < d" and ys: "all_children d' st now rows x = Inr ys" by blast
    from ys e have s: "all_children d' st now rows self = Inr ys"
      by (simp add: all_children_page_eq[of x self])
    from all_children_mono_le[OF _ s, of d] d' less.prems(1) have "ys = xs" by simp
    with less.IH[OF d' s, of x] less.prems(2) e show False by simp
  qed
qed

text \<open>
  In a hierarchy without a cycle the recursion ends: when every child has a smaller rank
  than its parent, \<open>all_children\<close> returns a list as soon as the depth allowed exceeds
  the rank of the page.
\<close>

lemma all_children_loop_total:
  assumes "\<forall>c\<in>set cs. \<exists>s. f c = Inr s"
  shows "\<exists>r. all_children_loop f cs acc = Inr r"
  using assms
proof (induction cs arbitrary: acc)
  case Nil
  show ?case by simp
next
  case (Cons c cs)
  then obtain s where "f c = Inr s" by auto
  with Cons show ?case by simp
qed

lemma all_children_total:
  assumes "\<forall>p c. c \<in> set (get_children st now rows p) \<longrightarrow> rank c < rank p"
  shows "rank self < d \<Longrightarrow> \<exists>xs. all_children d st now rows self = Inr xs"
proof (induction d arbitrary: self)
  case 0
  then show ?case by simp
next
  case (Suc d)
  have "\<forall>c\<in>set (get_children st now rows self). \<exists>s. all_children d st now rows c = Inr s"
  proof
    fix c assume c: "c \<in> set (get_children st now rows self)"
    with assms have "rank c < rank self" by blast
    with Suc.prems have "rank c < d" by simp
    then show "\<exists>s. all_children d st now rows c = Inr s" by (rule Suc.IH)
  qed
  then show ?case by (simp add: all_children_loop_total)
qed

text \<open>The pages of a result are exactly the descendants of the page.\<close>

lemma list_all2_pick:
  assumes "list_all2 P cs subs" and "c \<in> set cs"
  shows "\<exists>sub. (c, sub) \<in> set (zip cs subs) \<and> P c sub"
proof -
  from assms(2) obtain i where i: "i < length cs" "cs ! i = c" by (auto simp: in_set_conv_nth)
  with assms(1) have "P c (subs ! i)" "i < length subs"
    by (auto simp: list_all2_conv_all_nth)
  with i have "(c, subs ! i) \<in> set (zip cs subs)"
    by (auto simp: in_set_zip)
  with \<open>P c (subs ! i)\<close> show ?thesis by blast
qed

lemma all_children_sound:
  "all_children d st now rows self = Inr xs \<Longrightarrow> x \<in> set xs \<Longrightarrow> descendant st now rows self x"
proof (induction d arbitrary: self xs)
  case 0
  then show ?case by simp
next
  case (Suc d)
  from Suc.prems(1) obtain subs where
    s: "list_all2 (\<lambda>c s. all_children d st now rows c = Inr s) (get_children st now rows self) subs"
    and xs: "xs = concat (map2 (#) (get_children st now rows self) subs)"
    unfolding all_children_Suc_Inr by blast
  from Suc.prems(2) xs obtain c sub where
    cs: "(c, sub) \<in> set (zip (get_children st now rows self) subs)" and x: "x \<in> set (c # sub)"
    by auto
  from s cs have c: "all_children d st now rows c = Inr sub"
    by (auto simp: list_all2_iff)
  from cs have cm: "c \<in> set (get_children st now rows self)" by (rule set_zip_leftD)
  show ?case
  proof (cases "x = c")
    case True
    with cm show ?thesis by (simp add: descendant.child)
  next
    case False
    with x have "x \<in> set sub" by simp
    from Suc.IH[OF c this] cm show ?thesis by (rule descendant.below[rotated])
  qed
qed

lemma all_children_complete:
  "descendant st now rows self x \<Longrightarrow> all_children d st now rows self = Inr xs \<Longrightarrow> x \<in> set xs"
proof (induction arbitrary: d xs rule: descendant.induct)
  case (child c p)
  from child.prems obtain d' where d: "d = Suc d'" by (cases d) simp_all
  with child.prems have "all_children (Suc d') st now rows p = Inr xs"
    by (simp del: all_children.simps)
  then obtain subs where
    s: "list_all2 (\<lambda>c s. all_children d' st now rows c = Inr s) (get_children st now rows p) subs"
    and xs: "xs = concat (map2 (#) (get_children st now rows p) subs)"
    unfolding all_children_Suc_Inr by blast
  from list_all2_pick[OF s child.hyps] obtain sub where
    "(c, sub) \<in> set (zip (get_children st now rows p) subs)" by blast
  with xs show ?case by force
next
  case (below c p x)
  from below.prems obtain d' where d: "d = Suc d'" by (cases d) simp_all
  with below.prems have "all_children (Suc d') st now rows p = Inr xs"
    by (simp del: all_children.simps)
  then obtain subs where
    s: "list_all2 (\<lambda>c s. all_children d' st now rows c = Inr s) (get_children st now rows p) subs"
    and xs: "xs = concat (map2 (#) (get_children st now rows p) subs)"
    unfolding all_children_Suc_Inr by blast
  from list_all2_pick[OF s below.hyps(1)] obtain sub where
    z: "(c, sub) \<in> set (zip (get_children st now rows p) subs)"
    and sub: "all_children d' st now rows c = Inr sub" by blast
  from below.IH[OF sub] have "x \<in> set sub" .
  with z xs show ?case by force
qed

text \<open>
  Claim C5. \<^verbatim>\<open>all_children\<close> lists the descendants depth first, each child right before
  its own descendants and the children in their order: for the children \<open>[A, B]\<close>, where
  \<open>A\<close> has the one child \<open>A1\<close>, the result is \<open>[A, A1, B]\<close> whenever the recursion may go
  three deep. In a hierarchy without a cycle (every child of a smaller rank than its
  parent) the call returns a list once the depth allowed exceeds the rank of the page.
  A result is the concatenation, over the children in order, of the child followed by
  the child's own result; its pages are exactly the descendants of the page, and the
  page itself is not among them.
\<close>

theorem all_children_preorder:
  "(get_children st now rows self = [A, B] \<and> get_children st now rows A = [A1]
      \<and> get_children st now rows A1 = [] \<and> get_children st now rows B = []
     \<longrightarrow> all_children (Suc (Suc (Suc depth))) st now rows self = Inr [A, A1, B])
   \<and> ((\<forall>p c. c \<in> set (get_children st now rows p) \<longrightarrow> rank c < rank p) \<and> rank self < n
     \<longrightarrow> (\<exists>ys. all_children n st now rows self = Inr ys))
   \<and> (all_children (Suc d) st now rows self = Inr xs \<longrightarrow>
        (\<exists>subs. list_all2 (\<lambda>child sub. all_children d st now rows child = Inr sub)
                  (get_children st now rows self) subs
           \<and> xs = concat (map2 (#) (get_children st now rows self) subs))
        \<and> (\<forall>x. x \<in> set xs \<longleftrightarrow> descendant st now rows self x)
        \<and> (\<forall>x\<in>set xs. \<not> page_eq x self))"
proof (intro conjI impI)
  assume "get_children st now rows self = [A, B] \<and> get_children st now rows A = [A1]
      \<and> get_children st now rows A1 = [] \<and> get_children st now rows B = []"
  then show "all_children (Suc (Suc (Suc depth))) st now rows self = Inr [A, A1, B]"
    by simp
next
  assume "(\<forall>p c. c \<in> set (get_children st now rows p) \<longrightarrow> rank c < rank p) \<and> rank self < n"
  then show "\<exists>ys. all_children n st now rows self = Inr ys"
    using all_children_total[of st now rows rank self n] by blast
next
  assume r: "all_children (Suc d) st now rows self = Inr xs"
  then show "\<exists>subs. list_all2 (\<lambda>child sub. all_children d st now rows child = Inr sub)
                  (get_children st now rows self) subs
           \<and> xs = concat (map2 (#) (get_children st now rows self) subs)"
    unfolding all_children_Suc_Inr .
  from r show "\<forall>x. x \<in> set xs \<longleftrightarrow> descendant st now rows self x"
    using all_children_sound[of "Suc d" st now rows self xs]
      all_children_complete[of st now rows self _ "Suc d" xs]
    by blast
  from r show "\<forall>x\<in>set xs. \<not> page_eq x self"
    using all_children_excludes_self[of "Suc d" st now rows self xs] by blast
qed

lemma site_children:
  "get_children [] 0 site_rows site_root = [site_A, site_B]"
  "get_children [] 0 site_rows site_A = [site_A1]"
  "get_children [] 0 site_rows site_A1 = []"
  "get_children [] 0 site_rows site_B = []"
  by (simp_all add: get_children_def get_query_set_def select_published_active_def
        Page_select_published_def PublishedBase_select_published_def
        site_rows_def site_root_def site_A_def site_A1_def site_B_def site_D_def site_root2_def)

lemma site_rank_decreases:
  "\<forall>p c. c \<in> set (get_children [False] 0 site_rows p) \<longrightarrow> site_rank c < site_rank p"
  by (auto simp: get_children_def get_query_set_def select_published_active_def site_rank_def
        site_rows_def site_root_def site_A_def site_A1_def site_B_def site_D_def site_root2_def
        split: if_splits)

lemma site_all_children_unfiltered:
  "all_children (Suc (Suc (Suc 0))) [False] 0 site_rows site_root
     = Inr [site_A, site_A1, site_B, site_D]"
  by (simp add: get_children_def get_query_set_def select_published_active_def
        site_rows_def site_root_def site_A_def site_A1_def site_B_def site_D_def site_root2_def)

theorem all_children_preorder_witness:
  "get_children [] 0 site_rows site_root = [site_A, site_B]
   \<and> get_children [] 0 site_rows site_A = [site_A1]
   \<and> get_children [] 0 site_rows site_A1 = []
   \<and> get_children [] 0 site_rows site_B = []
   \<and> all_children (Suc (Suc (Suc 0))) [] 0 site_rows site_root = Inr [site_A, site_A1, site_B]
   \<and> \<not> page_eq site_A site_root \<and> \<not> page_eq site_A1 site_root \<and> \<not> page_eq site_B site_root
   \<and> site_rank site_root < Suc (Suc (Suc 0))
   \<and> all_children (Suc (Suc (Suc 0))) [False] 0 site_rows site_root
        = Inr [site_A, site_A1, site_B, site_D]
   \<and> descendant [False] 0 site_rows site_root site_A1
   \<and> \<not> descendant [False] 0 site_rows site_root site_root2"
proof -
  have shape: "all_children (Suc (Suc (Suc 0))) [] 0 site_rows site_root
                 = Inr [site_A, site_A1, site_B]
      \<and> \<not> page_eq site_A site_root \<and> \<not> page_eq site_A1 site_root \<and> \<not> page_eq site_B site_root"
    using all_children_preorder
      [where st = "[]" and now = 0 and rows = site_rows and self = site_root and A = site_A
         and B = site_B and ?A1.0 = site_A1 and depth = 0 and d = "Suc (Suc 0)"
         and xs = "[site_A, site_A1, site_B]" and rank = site_rank and n = 0]
    by (simp add: site_children)
  have rk: "site_rank site_root < Suc (Suc (Suc 0))"
    by (simp add: site_rank_def site_root_def)
  have full: "(\<exists>ys. all_children (Suc (Suc (Suc 0))) [False] 0 site_rows site_root = Inr ys)
      \<and> (\<forall>x. x \<in> set [site_A, site_A1, site_B, site_D]
               \<longleftrightarrow> descendant [False] 0 site_rows site_root x)"
    using all_children_preorder
      [where st = "[False]" and now = 0 and rows = site_rows and self = site_root
         and d = "Suc (Suc 0)" and xs = "[site_A, site_A1, site_B, site_D]"
         and rank = site_rank and n = "Suc (Suc (Suc 0))"]
      site_rank_decreases rk site_all_children_unfiltered
    by blast
  from full have "site_A1 \<in> set [site_A, site_A1, site_B, site_D]
                    \<longleftrightarrow> descendant [False] 0 site_rows site_root site_A1"
    by blast
  then have d1: "descendant [False] 0 site_rows site_root site_A1"
    by simp
  from full have "site_root2 \<in> set [site_A, site_A1, site_B, site_D]
                    \<longleftrightarrow> descendant [False] 0 site_rows site_root site_root2"
    by blast
  then have d2: "\<not> descendant [False] 0 site_rows site_root site_root2"
    by (simp add: site_root2_def site_A_def site_A1_def site_B_def site_D_def)
  from shape rk d1 d2 site_all_children_unfiltered show ?thesis
    by (simp add: site_children del: all_children.simps)
qed

subsection \<open>Siblings\<close>

lemma sibling_scan_first:
  assumes "\<forall>x\<in>set xs. \<not> page_eq x self" "page_eq s self"
  shows "sibling_scan self (xs @ s # ys) = (case ys of [] \<Rightarrow> None | y # _ \<Rightarrow> Some y)"
  using assms by (induction xs) simp_all

text \<open>
  Claim C6. When the page occurs exactly once among its siblings (the children of its
  parent, in their order), \<^verbatim>\<open>next\<close> returns the sibling right after it, or None when it
  is the last one, and \<^verbatim>\<open>prev\<close> the sibling right before it, or None when it is the first.
\<close>

theorem next_prev_sibling:
  assumes "siblings st now rows self = xs @ [s] @ ys"
    and "page_eq s self"
    and "\<forall>x\<in>set xs. \<not> page_eq x self"
    and "\<forall>y\<in>set ys. \<not> page_eq y self"
  shows "next_sibling st now rows self = (case ys of [] \<Rightarrow> None | y # _ \<Rightarrow> Some y)
       \<and> prev_sibling st now rows self = (if xs = [] then None else Some (last xs))
       \<and> (\<exists>par. parent self = Some par \<and> get_children st now rows par = xs @ [s] @ ys)"
proof -
  have n: "next_sibling st now rows self = (case ys of [] \<Rightarrow> None | y # _ \<Rightarrow> Some y)"
    using assms(1-3) sibling_scan_first[of xs self s ys] by (simp add: next_sibling_def)
  have "rev (siblings st now rows self) = rev ys @ s # rev xs"
    using assms(1) by simp
  moreover have "\<forall>y\<in>set (rev ys). \<not> page_eq y self" using assms(4) by simp
  ultimately have "prev_sibling st now rows self = (case rev xs of [] \<Rightarrow> None | y # _ \<Rightarrow> Some y)"
    using assms(2) sibling_scan_first[of "rev ys" self s "rev xs"] by (simp add: prev_sibling_def)
  also have "\<dots> = (if xs = [] then None else Some (last xs))"
    by (cases xs rule: rev_cases) simp_all
  finally have p: "prev_sibling st now rows self = (if xs = [] then None else Some (last xs))" .
  have "\<exists>par. parent self = Some par \<and> get_children st now rows par = xs @ [s] @ ys"
    using assms(1) by (cases "parent self") (simp_all add: siblings_def)
  with n p show ?thesis by simp
qed

lemma site_siblings_unfiltered:
  "siblings [False] 0 site_rows site_B = [site_A, site_B, site_D]"
  "siblings [False] 0 site_rows site_A = [site_A, site_B, site_D]"
  "siblings [False] 0 site_rows site_D = [site_A, site_B, site_D]"
  by (simp_all add: siblings_def get_children_def get_query_set_def select_published_active_def
        site_rows_def site_root_def site_A_def site_A1_def site_B_def site_D_def site_root2_def)

theorem next_prev_sibling_witness:
  "siblings [False] 0 site_rows site_B = [site_A] @ [site_B] @ [site_D]
   \<and> next_sibling [False] 0 site_rows site_B = Some site_D
   \<and> prev_sibling [False] 0 site_rows site_B = Some site_A
   \<and> next_sibling [False] 0 site_rows site_D = None
   \<and> prev_sibling [False] 0 site_rows site_A = None"
proof -
  have ids: "\<not> page_eq site_A site_B" "\<not> page_eq site_D site_B" "\<not> page_eq site_A site_D"
    "\<not> page_eq site_B site_D" "\<not> page_eq site_B site_A" "\<not> page_eq site_D site_A"
    "page_eq site_B site_B" "page_eq site_A site_A" "page_eq site_D site_D"
    by (simp_all add: page_eq_def site_root_def site_A_def site_B_def site_D_def)
  have "next_sibling [False] 0 site_rows site_B = Some site_D
      \<and> prev_sibling [False] 0 site_rows site_B = Some site_A"
    using next_prev_sibling [of "[False]" 0 site_rows site_B "[site_A]" site_B "[site_D]"] ids
    by (simp add: site_siblings_unfiltered)
  moreover have "next_sibling [False] 0 site_rows site_D = None"
    using next_prev_sibling [of "[False]" 0 site_rows site_D "[site_A, site_B]" site_D "[]"] ids
    by (simp add: site_siblings_unfiltered)
  moreover have "prev_sibling [False] 0 site_rows site_A = None"
    using next_prev_sibling [of "[False]" 0 site_rows site_A "[]" site_A "[site_B, site_D]"] ids
    by (simp add: site_siblings_unfiltered)
  ultimately show ?thesis by (simp add: site_siblings_unfiltered)
qed

text \<open>
  Claim C10. A page without a parent has no siblings, whatever other roots the site has,
  and so \<^verbatim>\<open>next\<close> and \<^verbatim>\<open>prev\<close> both return None for it.
\<close>

theorem root_has_no_siblings:
  assumes "parent self = None"
  shows "siblings st now rows self = [] \<and> next_sibling st now rows self = None
         \<and> prev_sibling st now rows self = None"
  using assms by (simp add: siblings_def next_sibling_def prev_sibling_def)

theorem root_has_no_siblings_witness:
  "parent site_root = None \<and> parent site_root2 = None
   \<and> site_root \<in> set site_rows \<and> site_root2 \<in> set site_rows \<and> site_root \<noteq> site_root2
   \<and> siblings [False] 0 site_rows site_root = []
   \<and> next_sibling [False] 0 site_rows site_root = None
   \<and> prev_sibling [False] 0 site_rows site_root2 = None"
  using root_has_no_siblings [of site_root "[False]" 0 site_rows]
    root_has_no_siblings [of site_root2 "[False]" 0 site_rows]
  by (simp add: site_rows_def site_root_def site_root2_def)

section \<open>Properties of publication filtering\<close>

lemma Page_select_published_filter:
  "Page_select_published now rows =
     filter (\<lambda>p. is_online p
                \<and> (publication_date p = None \<or> (\<exists>d. publication_date p = Some d \<and> d \<le> now))
                \<and> (expiry_date p = None \<or> (\<exists>d. expiry_date p = Some d \<and> now < d))) rows"
  by (auto simp: Page_select_published_def PublishedBase_select_published_def Let_def
           intro!: filter_cong split: option.splits)

text \<open>
  Claim C7. When \<^verbatim>\<open>select_published_active\<close> holds, the manager's queryset is exactly
  the pages that are online, whose publication date is null or not after now, and whose
  expiry date is null or after now, in the order of the rows; a page that fails one of
  the three conditions is not in it.
\<close>

theorem published_filter_exact:
  assumes "select_published_active st"
  shows "get_query_set st now rows =
           filter (\<lambda>p. is_online p
                \<and> (publication_date p = None \<or> (\<exists>d. publication_date p = Some d \<and> d \<le> now))
                \<and> (expiry_date p = None \<or> (\<exists>d. expiry_date p = Some d \<and> now < d))) rows
       \<and> (p \<in> set (get_query_set st now rows) \<longleftrightarrow>
            p \<in> set rows \<and> is_online p
            \<and> (publication_date p = None \<or> (\<exists>d. publication_date p = Some d \<and> d \<le> now))
            \<and> (expiry_date p = None \<or> (\<exists>d. expiry_date p = Some d \<and> now < d)))"
  using assms by (simp add: get_query_set_def Page_select_published_filter)

theorem published_filter_exact_witness:
  "select_published_active []
   \<and> get_query_set [] 10 dated_rows = [Page 1 None True None None, Page 3 None True (Some 10) (Some 11)]
   \<and> Page 2 None False None None \<notin> set (get_query_set [] 10 dated_rows)
   \<and> Page 4 None True (Some 11) None \<notin> set (get_query_set [] 10 dated_rows)
   \<and> Page 5 None True None (Some 10) \<notin> set (get_query_set [] 10 dated_rows)"
proof -
  have a: "select_published_active []" by (simp add: select_published_active_def)
  from published_filter_exact [OF a, of 10 dated_rows]
  have q: "get_query_set [] 10 dated_rows
             = [Page 1 None True None None, Page 3 None True (Some 10) (Some 11)]"
    by (simp add: dated_rows_def)
  with a show ?thesis by simp
qed

text \<open>
  Claim C8, as the code has it. The value on top of the stack is \<^verbatim>\<open>select_published\<close>:
  with True on top the children query leaves out a child that is not online, and after
  that block has ended and False was pushed the same query yields the child.
\<close>

theorem draft_child_gated_by_select_published:
  assumes "D \<in> set rows" and "parent D = Some par'" and "page_id par' = page_id par"
    and "\<not> is_online D"
  shows "D \<notin> set (get_children (pm_begin st True) now rows par)
       \<and> pm_end (pm_begin st True) = Inr st
       \<and> D \<in> set (get_children (pm_begin st False) now rows par)"
  using assms
  by (simp add: get_children_def get_query_set_def select_published_active_def pm_begin_def
        pm_end_def Page_select_published_def PublishedBase_select_published_def)

theorem draft_child_gated_by_select_published_witness:
  "site_D \<in> set site_rows \<and> parent site_D = Some site_root \<and> \<not> is_online site_D
   \<and> get_children (pm_begin init_stack True) 0 site_rows site_root = [site_A, site_B]
   \<and> pm_end (pm_begin init_stack True) = Inr init_stack
   \<and> get_children (pm_begin init_stack False) 0 site_rows site_root = [site_A, site_B, site_D]"
  using draft_child_gated_by_select_published
    [of site_D site_rows site_root site_root init_stack 0]
  by (simp add: get_children_def get_query_set_def select_published_active_def pm_begin_def
        pm_end_def Page_select_published_def PublishedBase_select_published_def init_stack_def
        site_rows_def site_root_def site_A_def site_A1_def site_B_def site_D_def site_root2_def)

text \<open>
  The scenario of claim C8 as the specification words it, with the pushed value read as
  "show unpublished", fails: with False on top of the stack the draft \<open>D\<close> is among the
  children of its parent, and with True on top it is not.
\<close>

theorem draft_child_show_unpublished_counterexample:
  "\<not> is_online site_D \<and> parent site_D = Some site_root \<and> site_D \<in> set site_rows
   \<and> site_D \<in> set (get_children (pm_begin init_stack False) 0 site_rows site_root)
   \<and> pm_end (pm_begin init_stack False) = Inr init_stack
   \<and> site_D \<notin> set (get_children (pm_begin init_stack True) 0 site_rows site_root)"
  by (simp add: get_children_def get_query_set_def select_published_active_def pm_begin_def
        pm_end_def Page_select_published_def PublishedBase_select_published_def init_stack_def
        site_rows_def site_root_def site_A_def site_A1_def site_B_def site_D_def site_root2_def)

section \<open>Properties of the hierarchy cache\<close>

lemma cache_get_add:
  "cache_get i (cache_add p c) = (if i = page_id p then Some p else cache_get i c)"
  by (simp add: cache_get_def cache_add_def)

lemma cache_get_remove:
  "cache_get i (cache_remove (Some k) c) = (if i = k then None else cache_get i c)"
  by (auto simp: cache_get_def cache_remove_def)

lemma cache_get_ops:
  "\<forall>x\<in>set ops. page_id (op_page x) \<noteq> i \<Longrightarrow>
   cache_get i (foldl (\<lambda>c x. apply_op x c) c ops) = cache_get i c"
proof (induction ops arbitrary: c)
  case Nil
  show ?case by simp
next
  case (Cons x ops)
  then show ?case by (cases x) (simp_all add: cache_get_add cache_get_remove)
qed

lemma cache_remove_absent: "cache_get i c = None \<Longrightarrow> cache_remove (Some i) c = c"
  by (auto simp: cache_get_def cache_remove_def)

lemma cache_remove_None: "cache_remove None c = c"
  by (simp add: cache_remove_def)

lemma Page_save_cache:
  assumes "Page_save model_save p (db, c) = Inr (p', db', c')"
  shows "c' = cache_add p' c"
  using assms by (auto simp: Page_save_def split: sum.splits)

text \<open>
  What holds of the cache: a save that returns leaves the saved page under its identity
  and touches no other identity; a page added to the cache is what \<^verbatim>\<open>get\<close> returns for
  its identity as long as no later \<^verbatim>\<open>add\<close> or \<^verbatim>\<open>remove\<close> is for that identity; and
  \<^verbatim>\<open>remove\<close> of an identity that is not cached changes nothing.
\<close>

lemma cache_tracks_save:
  "(Page_save model_save p (db, c) = Inr (p', db', c') \<longrightarrow>
      cache_get (page_id p') c' = Some p'
      \<and> (\<forall>i. i \<noteq> page_id p' \<longrightarrow> cache_get i c' = cache_get i c))
   \<and> ((\<forall>x\<in>set ops. page_id (op_page x) \<noteq> page_id p) \<longrightarrow>
      cache_get (page_id p) (foldl (\<lambda>c x. apply_op x c) (cache_add p c) ops) = Some p)
   \<and> (cache_get (page_id p) c = None \<longrightarrow> cache_remove (Some (page_id p)) c = c)"
proof (intro conjI impI)
  assume "Page_save model_save p (db, c) = Inr (p', db', c')"
  then have c': "c' = cache_add p' c" by (rule Page_save_cache)
  then show "cache_get (page_id p') c' = Some p'" by (simp add: cache_get_add)
  from c' show "\<forall>i. i \<noteq> page_id p' \<longrightarrow> cache_get i c' = cache_get i c"
    by (simp add: cache_get_add)
next
  assume "\<forall>x\<in>set ops. page_id (op_page x) \<noteq> page_id p"
  then show "cache_get (page_id p) (foldl (\<lambda>c x. apply_op x c) (cache_add p c) ops) = Some p"
    by (simp add: cache_get_ops cache_get_add)
next
  assume "cache_get (page_id p) c = None"
  then show "cache_remove (Some (page_id p)) c = c" by (rule cache_remove_absent)
qed

text \<open>
  Had \<^verbatim>\<open>self\<close> kept its primary key through the framework's deletion, \<^verbatim>\<open>Page.delete\<close>
  would leave no entry under it.
\<close>

lemma Page_delete_removes_when_key_kept:
  assumes "model_delete p db = Inr (Some (page_id p), db')"
  shows "\<exists>c'. Page_delete model_delete p (db, c) = Inr (db', c')
           \<and> cache_get (page_id p) c' = None"
  using assms by (simp add: Page_delete_def cache_get_remove)

text \<open>
  Claim C9, where the code departs from it. \<^verbatim>\<open>Page.delete\<close> calls \<^verbatim>\<open>cache.remove(self)\<close>
  after the framework's deletion, which has left \<^verbatim>\<open>self\<close> without primary key: the call
  finds nothing under that identity, the cache is returned unchanged, and the entry of
  the deleted page, when there was one, is still what \<^verbatim>\<open>get\<close> returns for its identity.
\<close>

theorem Page_delete_keeps_cache_entry:
  assumes "model_delete p db = Inr (None, db')"
  shows "Page_delete model_delete p (db, c) = Inr (db', c)
       \<and> (\<forall>c'. Page_delete model_delete p (db, c) = Inr (db', c') \<longrightarrow>
             cache_get (page_id p) c' = cache_get (page_id p) c)"
  using assms by (simp add: Page_delete_def cache_remove_None)

theorem Page_delete_keeps_cache_entry_witness:
  "list_delete site_A [site_A] = Inr (None, [])
   \<and> Page_save list_save site_A ([], Map.empty) = Inr (site_A, [site_A], [2 \<mapsto> site_A])
   \<and> Page_delete list_delete site_A ([site_A], [2 \<mapsto> site_A]) = Inr ([], [2 \<mapsto> site_A])
   \<and> cache_get (page_id site_A) [2 \<mapsto> site_A] = Some site_A"
  using Page_delete_keeps_cache_entry
    [of list_delete site_A "[site_A]" "[]" "[2 \<mapsto> site_A]"]
  by (simp add: Page_save_def list_save_def list_delete_def cache_add_def
        cache_get_def page_eq_def site_A_def site_root_def)

end
